theory Spec2Isabelle
  imports Complex_Main "HOL-Library.AList"
begin

section \<open>The Socket.io bridge server (src/server/index.js)\<close>

text \<open>
  The file holds two variants of the bridge server, one after the other. Each keeps four
  module-level variables (\<open>connectedClients\<close>, \<open>pythonConnected\<close>,
  \<open>latestSimulationState\<close>, \<open>episodeHistory\<close>) and reacts to socket connections, to
  socket events and to a timer. The handlers registered for a socket depend on the
  \<open>clientType\<close> that the connection callback read from the handshake; the model keeps it
  in a table of the connected sockets, beside the four variables.

  An event payload is any JSON value; \<open>JNull\<close> also stands for an event sent with no
  payload (\<open>undefined\<close>). An object is an association list from field names to values, in
  the order of its properties; numbers are taken as reals (the server computes with none
  of them) and a string's characters stand for its code units.
\<close>

datatype jsval =
    JNull
  | JBool bool
  | JNum real
  | JStr string
  | JArr "jsval list"
  | JObj "(string \<times> jsval) list"

type_synonym payload = "(string \<times> jsval) list"

type_synonym sid = string

text \<open>What a handler sends: \<open>socket.emit\<close> reaches the socket itself,
  \<open>socket.broadcast.emit\<close> every connected socket but the sender.\<close>

datatype emission =
    Emit sid string jsval
  | Broadcast sid string jsval

record handshake =
  query_type :: "string option"
  auth_type :: "string option"

record server_state =
  connectedClients :: int
  pythonConnected :: bool
  latestSimulationState :: "payload option"
  episodeHistory :: "jsval list"
  sockets :: "(sid \<times> string) list"

definition initial_state :: server_state where
  "initial_state =
     \<lparr>connectedClients = 0, pythonConnected = False, latestSimulationState = None,
      episodeHistory = [], sockets = []\<rparr>"

text \<open>\<open>Array.prototype.slice(start)\<close> with one argument: a negative start counts from
  the end and is clipped at the first element, a positive one is clipped at the length.\<close>

definition js_slice :: "int \<Rightarrow> 'a list \<Rightarrow> 'a list" where
  "js_slice start xs =
     (let len = int (length xs);
          k = (if start < 0 then max (len + start) 0 else min start len)
      in drop (nat k) xs)"

text \<open>\<open>query.type || auth?.type || 'unknown'\<close>: the first operand that is neither
  undefined nor the empty string.\<close>

definition or_else :: "string option \<Rightarrow> string \<Rightarrow> string" where
  "or_else v alt = (case v of None \<Rightarrow> alt | Some s \<Rightarrow> if s = [] then alt else s)"

definition clientType :: "handshake \<Rightarrow> string" where
  "clientType h = or_else (query_type h) (or_else (auth_type h) ''unknown'')"

subsection \<open>Reading and printing a payload\<close>

text \<open>The property \<open>data.name\<close> of a payload that is not null, for the names the handlers
  read (none of them is a property of a prototype): the field of an object, and
  \<open>undefined\<close> (\<open>None\<close>) otherwise. On \<open>null\<close> and \<open>undefined\<close> the access raises a
  TypeError, which the handlers' definitions below test first.\<close>

definition field_of :: "jsval \<Rightarrow> string \<Rightarrow> jsval option" where
  "field_of data name = (case data of JObj fs \<Rightarrow> map_of fs name | _ \<Rightarrow> None)"

text \<open>Conversion of a value to a primitive, as a template literal \<open>${v}\<close> and the product
  \<open>v * 100\<close> do it, raises a TypeError for an object that has a field \<open>toString\<close> of its
  own (a JSON value is never callable, and \<open>Object.prototype.valueOf\<close> returns the object
  itself), and for an array one of whose elements raises it in \<open>join\<close>. Every other value
  converts.\<close>

fun to_primitive_throws :: "jsval \<Rightarrow> bool" where
  "to_primitive_throws (JObj fs) = (''toString'' \<in> set (map fst fs))"
| "to_primitive_throws (JArr xs) = (\<exists>x \<in> set xs. to_primitive_throws x)"
| "to_primitive_throws v = False"

text \<open>\<open>${data.name}\<close> in a template literal: \<open>undefined\<close> prints as such.\<close>

definition print_throws :: "jsval \<Rightarrow> string \<Rightarrow> bool" where
  "print_throws data name =
     (case field_of data name of None \<Rightarrow> False | Some v \<Rightarrow> to_primitive_throws v)"

text \<open>The object spread \<open>{...data}\<close>: the fields of an object, the elements of an array
  and the characters of a string under their indices, and nothing for a number, a boolean
  or null.\<close>

function index_key :: "nat \<Rightarrow> string" where
  "index_key n =
     (if n < 10 then [''0123456789'' ! n]
      else index_key (n div 10) @ [''0123456789'' ! (n mod 10)])"
  by pat_completeness auto
termination
  by (relation "measure id") auto

definition spread :: "jsval \<Rightarrow> payload" where
  "spread data =
     (case data of
        JObj fs \<Rightarrow> fs
      | JArr xs \<Rightarrow> zip (map index_key [0..<length xs]) xs
      | JStr s \<Rightarrow> zip (map index_key [0..<length s]) (map (\<lambda>c. JStr [c]) s)
      | _ \<Rightarrow> [])"

text \<open>The object literal \<open>{...data, timestamp: Date.now()}\<close>: the spread fields in their
  order, then \<open>timestamp\<close> assigned, which overwrites a field of that name in place and is
  appended otherwise.\<close>

definition with_timestamp :: "payload \<Rightarrow> int \<Rightarrow> payload" where
  "with_timestamp fs now = AList.update ''timestamp'' (JNum (of_int now)) fs"

text \<open>The two variants. Variant 1 is the first file of src/server/index.js ("fixed event
  names"), variant 2 the second.\<close>

datatype variant = V1 | V2

text \<open>What handling one input comes to: the variables afterwards, what was sent, and
  whether the handler raised a TypeError. Nothing in the file catches it, so the server
  process exits on it.\<close>

record outcome =
  after :: server_state
  sent :: "emission list"
  raised :: bool

definition returns :: "server_state \<Rightarrow> emission list \<Rightarrow> outcome" where
  "returns st out = \<lparr>after = st, sent = out, raised = False\<rparr>"

definition raises :: "server_state \<Rightarrow> emission list \<Rightarrow> outcome" where
  "raises st out = \<lparr>after = st, sent = out, raised = True\<rparr>"

subsection \<open>Handlers of the Python client's socket\<close>

text \<open>The log line of \<open>socket.on('simulation_update')\<close>. Variant 1 prints
  \<open>data.episode\<close> and \<open>data.step\<close> in a template literal; variant 2 reads fields of
  \<open>data\<close> into an object that \<open>console.log\<close> prints without converting them.\<close>

definition update_log_throws :: "variant \<Rightarrow> jsval \<Rightarrow> bool" where
  "update_log_throws v data =
     (case v of
        V1 \<Rightarrow> data = JNull \<or> print_throws data ''episode'' \<or> print_throws data ''step''
      | V2 \<Rightarrow> data = JNull)"

text \<open>\<open>socket.on('simulation_update')\<close>: log, then store the payload with a timestamp and
  broadcast it as \<open>state_update\<close>. \<open>now\<close> is the value \<open>Date.now()\<close> returns.\<close>

definition simulation_update ::
  "variant \<Rightarrow> sid \<Rightarrow> jsval \<Rightarrow> int \<Rightarrow> server_state \<Rightarrow> outcome" where
  "simulation_update v s data now st =
     (if update_log_throws v data then raises st []
      else let latest = with_timestamp (spread data) now
           in returns (st\<lparr>latestSimulationState := Some latest\<rparr>)
                [Broadcast s ''state_update'' (JObj latest)])"

text \<open>\<open>episodeHistory.push(data)\<close>, then the cut to the last 100 entries.\<close>

definition push_history :: "jsval \<Rightarrow> jsval list \<Rightarrow> jsval list" where
  "push_history data h =
     (let h1 = h @ [data]
      in if length h1 > 100 then js_slice (- 100) h1 else h1)"

text \<open>The log lines of \<open>socket.on('episode_complete')\<close> that print the payload. Variant 1
  prints five fields, \<open>survival_rate\<close> through \<open>(data.survival_rate * 100).toFixed(1)\<close>;
  variant 2 prints \<open>episode\<close> and \<open>survival_rate\<close>.\<close>

definition episode_log_throws :: "variant \<Rightarrow> jsval \<Rightarrow> bool" where
  "episode_log_throws v data =
     (case v of
        V1 \<Rightarrow> data = JNull \<or> print_throws data ''episode''
               \<or> print_throws data ''survival_rate''
               \<or> print_throws data ''cooperation_events''
               \<or> print_throws data ''theft_events''
               \<or> print_throws data ''num_alliances''
      | V2 \<Rightarrow> data = JNull \<or> print_throws data ''episode''
               \<or> print_throws data ''survival_rate'')"

definition summary_event :: "variant \<Rightarrow> string" where
  "summary_event v = (case v of V1 \<Rightarrow> ''episode_complete'' | V2 \<Rightarrow> ''episode_summary'')"

text \<open>\<open>socket.on('episode_complete')\<close>. Variant 1 logs the payload first, then pushes it
  and broadcasts it under the name \<open>episode_complete\<close>. Variant 2 pushes it, broadcasts it
  under the name \<open>episode_summary\<close>, and logs it last.\<close>

definition episode_complete :: "variant \<Rightarrow> sid \<Rightarrow> jsval \<Rightarrow> server_state \<Rightarrow> outcome" where
  "episode_complete v s data st =
     (let st1 = st\<lparr>episodeHistory := push_history data (episodeHistory st)\<rparr>;
          out = [Broadcast s (summary_event v) data]
      in case v of
           V1 \<Rightarrow> if episode_log_throws V1 data then raises st [] else returns st1 out
         | V2 \<Rightarrow> if episode_log_throws V2 data then raises st1 out else returns st1 out)"

subsection \<open>Handlers of a React client's socket\<close>

definition send_state :: "sid \<Rightarrow> server_state \<Rightarrow> emission list" where
  "send_state s st =
     (case latestSimulationState st of
        None \<Rightarrow> []
      | Some latest \<Rightarrow> [Emit s ''state_update'' (JObj latest)])"

text \<open>Variant 1 sends each of the last 20 episodes as an \<open>episode_complete\<close> event.\<close>

definition replay_history :: "sid \<Rightarrow> server_state \<Rightarrow> emission list" where
  "replay_history s st =
     (if length (episodeHistory st) > 0
      then map (\<lambda>episode. Emit s ''episode_complete'' episode)
             (js_slice (- 20) (episodeHistory st))
      else [])"

text \<open>Variant 2 sends the last 20 episodes as one array, also when there is none.\<close>

definition history_update :: "sid \<Rightarrow> server_state \<Rightarrow> emission list" where
  "history_update s st =
     [Emit s ''history_update'' (JArr (js_slice (- 20) (episodeHistory st)))]"

definition react_connected :: "variant \<Rightarrow> sid \<Rightarrow> server_state \<Rightarrow> emission list" where
  "react_connected v s st =
     (case v of
        V1 \<Rightarrow> send_state s st @ replay_history s st
      | V2 \<Rightarrow> send_state s st @ history_update s st)"

definition request_update :: "variant \<Rightarrow> sid \<Rightarrow> server_state \<Rightarrow> emission list" where
  "request_update v s st =
     (case v of
        V1 \<Rightarrow> send_state s st @ replay_history s st
      | V2 \<Rightarrow> send_state s st)"

subsection \<open>Connection, disconnection, timer\<close>

definition connection_confirmed :: "sid \<Rightarrow> emission" where
  "connection_confirmed s =
     Emit s ''connection_confirmed''
       (JObj [(''message'', JStr ''Python client registered successfully''),
              (''sid'', JStr s)])"

definition connection :: "variant \<Rightarrow> sid \<Rightarrow> handshake \<Rightarrow> server_state \<Rightarrow> outcome" where
  "connection v s h st =
     (let ct = clientType h;
          st1 = st\<lparr>connectedClients := connectedClients st + 1,
                   sockets := AList.update s ct (sockets st)\<rparr>
      in if ct = ''python''
         then returns (st1\<lparr>pythonConnected := True\<rparr>) [connection_confirmed s]
         else if ct = ''react'' then returns st1 (react_connected v s st1)
         else returns st1 [])"

definition disconnect :: "sid \<Rightarrow> server_state \<Rightarrow> server_state" where
  "disconnect s st =
     (case map_of (sockets st) s of
        None \<Rightarrow> st
      | Some ct \<Rightarrow>
          (let st1 = st\<lparr>connectedClients := connectedClients st - 1,
                        sockets := AList.delete s (sockets st)\<rparr>
           in if ct = ''python'' then st1\<lparr>pythonConnected := False\<rparr> else st1))"

text \<open>The \<open>setInterval\<close> callback: variant 1 only logs, variant 2 cuts the history
  again.\<close>

definition timer :: "variant \<Rightarrow> server_state \<Rightarrow> server_state" where
  "timer v st =
     (case v of
        V1 \<Rightarrow> st
      | V2 \<Rightarrow>
          (if length (episodeHistory st) > 100
           then st\<lparr>episodeHistory := js_slice (- 100) (episodeHistory st)\<rparr>
           else st))"

subsection \<open>The server as a transition function\<close>

datatype input =
    Connection sid handshake
  | Message sid string jsval
  | Disconnect sid
  | Timer

text \<open>A socket event reaches a handler only if the connection callback registered one
  for the socket's client type; any other event is dropped.\<close>

definition message ::
  "variant \<Rightarrow> int \<Rightarrow> sid \<Rightarrow> string \<Rightarrow> jsval \<Rightarrow> server_state \<Rightarrow> outcome" where
  "message v now s name data st =
     (case map_of (sockets st) s of
        None \<Rightarrow> returns st []
      | Some ct \<Rightarrow>
          if ct = ''python'' \<and> name = ''simulation_update''
            then simulation_update v s data now st
          else if ct = ''python'' \<and> name = ''episode_complete''
            then episode_complete v s data st
          else if ct = ''react'' \<and> name = ''request_update''
            then returns st (request_update v s st)
          else returns st [])"

fun step :: "variant \<Rightarrow> int \<times> input \<Rightarrow> server_state \<Rightarrow> outcome" where
  "step v (now, Connection s h) st = connection v s h st"
| "step v (now, Message s name data) st = message v now s name data st"
| "step v (now, Disconnect s) st = returns (disconnect s st) []"
| "step v (now, Timer) st = returns (timer v st) []"

text \<open>A run handles the inputs in order, each with the clock value read while it is
  handled, and collects what was sent. It ends with the input whose handler raises.\<close>

fun run :: "variant \<Rightarrow> (int \<times> input) list \<Rightarrow> server_state \<Rightarrow> outcome" where
  "run v [] st = returns st []"
| "run v (i # is) st =
     (let r1 = step v i st
      in if raised r1 then r1
         else let r2 = run v is (after r1) in r2\<lparr>sent := sent r1 @ sent r2\<rparr>)"

text \<open>The \<open>episode_complete\<close> payload that an input makes the handler store: the payload
  of an event on a Python client's socket, in variant 1 only if the log lines before the
  push do not raise.\<close>

definition handles_episode :: "variant \<Rightarrow> server_state \<Rightarrow> int \<times> input \<Rightarrow> jsval list" where
  "handles_episode v st i =
     (case snd i of
        Message s name data \<Rightarrow>
          if map_of (sockets st) s = Some ''python'' \<and> name = ''episode_complete''
             \<and> (v = V2 \<or> \<not> episode_log_throws V1 data)
          then [data] else []
      | _ \<Rightarrow> [])"

text \<open>The payloads stored in a run, in order.\<close>

fun episodes_stored :: "variant \<Rightarrow> (int \<times> input) list \<Rightarrow> server_state \<Rightarrow> jsval list" where
  "episodes_stored v [] st = []"
| "episodes_stored v (i # is) st =
     handles_episode v st i @
       (if raised (step v i st) then [] else episodes_stored v is (after (step v i st)))"

text \<open>The payloads of the \<open>episode_complete\<close> events among the inputs.\<close>

fun episode_payloads :: "(int \<times> input) list \<Rightarrow> jsval list" where
  "episode_payloads [] = []"
| "episode_payloads ((now, Message s name data) # is) =
     (if name = ''episode_complete'' then [data] else []) @ episode_payloads is"
| "episode_payloads (i # is) = episode_payloads is"

text \<open>The snapshot that an input makes the \<open>simulation_update\<close> handler store, with the
  timestamp it is given; and the snapshots stored in a run, in order.\<close>

definition handles_update :: "variant \<Rightarrow> server_state \<Rightarrow> int \<times> input \<Rightarrow> payload list" where
  "handles_update v st i =
     (case snd i of
        Message s name data \<Rightarrow>
          if map_of (sockets st) s = Some ''python'' \<and> name = ''simulation_update''
             \<and> \<not> update_log_throws v data
          then [with_timestamp (spread data) (fst i)] else []
      | _ \<Rightarrow> [])"

fun updates_stored :: "variant \<Rightarrow> (int \<times> input) list \<Rightarrow> server_state \<Rightarrow> payload list" where
  "updates_stored v [] st = []"
| "updates_stored v (i # is) st =
     handles_update v st i @
       (if raised (step v i st) then [] else updates_stored v is (after (step v i st)))"

subsection \<open>HTTP routes\<close>

record history_response =
  episodes :: "jsval list"
  currentState :: "payload option"

definition api_history :: "server_state \<Rightarrow> history_response" where
  "api_history st =
     \<lparr>episodes = js_slice (- 50) (episodeHistory st),
      currentState = latestSimulationState st\<rparr>"

text \<open>Who receives an emission, given the connected sockets.\<close>

fun recipients :: "(sid \<times> string) list \<Rightarrow> emission \<Rightarrow> sid list" where
  "recipients socks (Emit s name body) = [s]"
| "recipients socks (Broadcast s name body) = filter (\<lambda>r. r \<noteq> s) (map fst socks)"

text \<open>The bodies of the broadcasts, and of the emissions to single sockets, that carry a
  given event name.\<close>

fun broadcast_body :: "string \<Rightarrow> emission \<Rightarrow> jsval list" where
  "broadcast_body name (Broadcast s n body) = (if n = name then [body] else [])"
| "broadcast_body name (Emit s n body) = []"

fun emit_body :: "string \<Rightarrow> emission \<Rightarrow> jsval list" where
  "emit_body name (Emit s n body) = (if n = name then [body] else [])"
| "emit_body name (Broadcast s n body) = []"

definition broadcasts :: "string \<Rightarrow> emission list \<Rightarrow> jsval list" where
  "broadcasts name out = concat (map (broadcast_body name) out)"

definition emits :: "string \<Rightarrow> emission list \<Rightarrow> jsval list" where
  "emits name out = concat (map (emit_body name) out)"





subsection \<open>A sample session\<close>

text \<open>The Python client connects with \<open>type=python\<close> in the query, sends a snapshot
  and an episode summary; the dashboard connects with \<open>auth: {type: 'react'}\<close> and asks
  for an update, as the dashboard component does.\<close>

definition python_handshake :: handshake where
  "python_handshake = \<lparr>query_type = Some ''python'', auth_type = None\<rparr>"

definition react_handshake :: handshake where
  "react_handshake = \<lparr>query_type = None, auth_type = Some ''react''\<rparr>"

definition python_online :: "variant \<Rightarrow> server_state" where
  "python_online v = after (step v (1000, Connection ''py'' python_handshake) initial_state)"

definition sample_session :: "(int \<times> input) list" where
  "sample_session =
     [(1000, Connection ''py'' python_handshake),
      (1001, Message ''py'' ''simulation_update''
               (JObj [(''episode'', JNum 1), (''step'', JNum 10)])),
      (1002, Message ''py'' ''episode_complete'' (JObj [(''episode'', JNum 1)])),
      (1003, Connection ''ui'' react_handshake),
      (1004, Message ''ui'' ''request_update'' JNull)]"

text \<open>A summary whose \<open>episode\<close> field cannot be printed.\<close>

definition unprintable :: jsval where
  "unprintable = JObj [(''episode'', JObj [(''toString'', JNum 1)])]"

section \<open>The simulation core (not among the sources; modelled from spec.md)\<close>

text \<open>
  The environment engine runs in the Python simulation, whose files are not under src/.
  The definitions of this section follow the words of spec.md (sections 3 and 4) and, for
  the initial health, the README.
\<close>

subsection \<open>Grid and resource layer\<close>

type_synonym cell = "int \<times> int"

text \<open>Modelled from the spec: the grid of section 3, which the Python environment
  holds. A fixed \<open>width \<times> height\<close> coordinate space, the obstacle cells, the food as a
  mapping from cells to amounts, and the configured food count.\<close>

record grid =
  width :: nat
  height :: nat
  obstacles :: "cell list"
  food :: "(cell \<times> nat) list"
  foodCount :: nat

text \<open>Modelled from the spec: the cells of the coordinate space, row by row.\<close>

definition allCells :: "grid \<Rightarrow> cell list" where
  "allCells g = concat (map (\<lambda>x. map (\<lambda>y. (int x, int y)) [0..<height g]) [0..<width g])"

text \<open>Modelled from the spec: a free cell is "neither an obstacle nor already holding
  food" (section 4.1).\<close>

definition freeCells :: "grid \<Rightarrow> cell list" where
  "freeCells g =
     filter (\<lambda>c. c \<notin> set (obstacles g) \<and> map_of (food g) c = None) (allCells g)"

text \<open>Modelled from the spec: \<open>spawnFood()\<close> of section 4.1, "picks a uniformly random
  cell that is neither an obstacle nor already holding food, and places one food unit
  there; fails silently (no-op) if the grid has no free cell". The random draw is the
  argument \<open>r\<close>, an index into the free cells.\<close>

definition spawnFood :: "nat \<Rightarrow> grid \<Rightarrow> grid" where
  "spawnFood r g =
     (let free = freeCells g
      in if free = [] then g
         else g\<lparr>food := food g @ [(free ! (r mod length free), 1)]\<rparr>)"

text \<open>Modelled from the spec: \<open>collectFoodAt(cell)\<close> of section 4.1, "removes food and
  returns the collected amount (0 if absent)".\<close>

definition collectFoodAt :: "cell \<Rightarrow> grid \<Rightarrow> nat \<times> grid" where
  "collectFoodAt c g =
     (case map_of (food g) c of
        None \<Rightarrow> (0, g)
      | Some amount \<Rightarrow> (amount, g\<lparr>food := AList.delete c (food g)\<rparr>))"

text \<open>Modelled from the spec: a collection with its replacement, "every successful
  collection schedules exactly one replacement spawn" (section 4.1). \<open>r\<close> is the draw
  of the replacement.\<close>

definition collectAndReplace :: "nat \<times> cell \<Rightarrow> grid \<Rightarrow> grid" where
  "collectAndReplace rc g =
     (let (amount, g1) = collectFoodAt (snd rc) g
      in if amount > 0 then spawnFood (fst rc) g1 else g1)"

text \<open>Modelled from the spec: the number of cells that hold food.\<close>

definition foodCellCount :: "grid \<Rightarrow> nat" where
  "foodCellCount g = length (remdups (map fst (food g)))"

text \<open>Modelled from the spec: the grid at episode start (section 3, lifecycle): the
  obstacles as given, and the configured number of food units placed one by one on free
  cells, each with its own draw.\<close>

definition resetGrid :: "nat \<Rightarrow> nat \<Rightarrow> cell list \<Rightarrow> nat list \<Rightarrow> grid" where
  "resetGrid w h obs draws =
     fold spawnFood draws
       \<lparr>width = w, height = h, obstacles = obs, food = [], foodCount = length draws\<rparr>"

subsection \<open>Agent registry\<close>

datatype personality = Cooperative | Aggressive | Neutral

datatype signal = NoSignal | Help | FoodNearby | Danger

text \<open>Modelled from the spec: the agent of section 3, an entry of the Python
  environment's registry. The agent's id is its index in the registry.\<close>

record agent =
  position :: cell
  health :: real
  inventory :: nat
  personality :: personality
  allianceId :: "nat option"
  communicationSignal :: signal
  cumulativeScore :: real

text \<open>Modelled from the spec: "0 = incapacitated" (section 3), "crossing \<open>\<le> 0\<close>
  incapacitates the agent" (section 4.3).\<close>

definition incapacitated :: "agent \<Rightarrow> bool" where
  "incapacitated a = (health a \<le> 0)"

text \<open>Modelled from the spec: "health is clamped to [0,100]" (section 4.3).\<close>

definition clampHealth :: "real \<Rightarrow> real" where
  "clampHealth h = max 0 (min 100 h)"

text \<open>Modelled from the spec: an agent as created at episode start; the README gives the
  initial health, 100.\<close>

definition newAgent :: "cell \<times> personality \<Rightarrow> agent" where
  "newAgent cp =
     \<lparr>position = fst cp, health = 100, inventory = 0, personality = snd cp,
      allianceId = None, communicationSignal = NoSignal, cumulativeScore = 0\<rparr>"

text \<open>Modelled from the spec: the commands the resolver issues to the registry
  (section 4.2).\<close>

datatype command =
    Move nat cell
  | ApplyHealthDelta nat real
  | ApplyReward nat real
  | SetInventory nat nat
  | SetSignal nat signal
  | Incapacitate nat

text \<open>Modelled from the spec: a command reaches a live agent of the registry only; an
  "action referencing an incapacitated or already-removed agent id" is ignored
  (section 7), an incapacitated agent is "excluded from future action resolution" and has
  a "frozen score" (section 4.3).\<close>

definition onLive :: "nat \<Rightarrow> (agent \<Rightarrow> agent) \<Rightarrow> agent list \<Rightarrow> agent list" where
  "onLive i f reg =
     (if i < length reg \<and> \<not> incapacitated (reg ! i) then reg[i := f (reg ! i)] else reg)"

text \<open>Modelled from the spec: the effect of each command of section 4.2. A move into an
  obstacle cell fails and the agent stays; a health delta is clamped; a reward is added to
  the cumulative score.\<close>

fun execute :: "cell list \<Rightarrow> command \<Rightarrow> agent list \<Rightarrow> agent list" where
  "execute obs (Move i d) reg =
     onLive i (\<lambda>a. let dest = (fst (position a) + fst d, snd (position a) + snd d)
                    in if dest \<in> set obs then a else a\<lparr>position := dest\<rparr>) reg"
| "execute obs (ApplyHealthDelta i d) reg =
     onLive i (\<lambda>a. a\<lparr>health := clampHealth (health a + d)\<rparr>) reg"
| "execute obs (ApplyReward i r) reg =
     onLive i (\<lambda>a. a\<lparr>cumulativeScore := cumulativeScore a + r\<rparr>) reg"
| "execute obs (SetInventory i n) reg = onLive i (\<lambda>a. a\<lparr>inventory := n\<rparr>) reg"
| "execute obs (SetSignal i sig) reg = onLive i (\<lambda>a. a\<lparr>communicationSignal := sig\<rparr>) reg"
| "execute obs (Incapacitate i) reg = onLive i (\<lambda>a. a\<lparr>health := 0\<rparr>) reg"

text \<open>Modelled from the spec: the registry states the resolver can reach are those that a
  sequence of commands produces from the agents created at episode start.\<close>

definition executeAll :: "cell list \<Rightarrow> command list \<Rightarrow> agent list \<Rightarrow> agent list" where
  "executeAll obs cs reg = fold (execute obs) cs reg"

subsection \<open>Alliance ledger\<close>

text \<open>Modelled from the spec: the alliance of section 3, kept by the Python environment: its
  member set, the tick it was last maintained and the tick it was formed.\<close>

record alliance =
  members :: "nat set"
  lastMaintainedTick :: nat
  formedTick :: nat

text \<open>Modelled from the spec: the ledger as the index-based partition of section 9, the
  active alliances by alliance id and the alliance id of each agent (the agent's
  \<open>allianceId\<close> in a snapshot), with the next id to allocate ("the alliance id is never
  reused", section 4.4).\<close>

record ledger =
  alliances :: "nat \<rightharpoonup> alliance"
  allianceIdOf :: "nat \<rightharpoonup> nat"
  nextAllianceId :: nat

text \<open>Modelled from the spec: the ledger at episode start, with no alliance.\<close>

definition emptyLedger :: ledger where
  "emptyLedger = \<lparr>alliances = Map.empty, allianceIdOf = Map.empty, nextAllianceId = 0\<rparr>"

text \<open>Modelled from the spec: "alliance invariant violations (e.g., attempted duplicate
  membership) are internal logic errors, fatal" (section 7).\<close>

datatype ledger_error = InvariantViolation

text \<open>Modelled from the spec: a successful "form alliance" of section 4.3, between two
  agents "neither currently in an alliance": "new alliance id allocated, both agents
  assigned, lastMaintainedTick = current tick".\<close>

definition formAlliance :: "nat \<Rightarrow> nat \<Rightarrow> nat \<Rightarrow> ledger \<Rightarrow> ledger_error + ledger" where
  "formAlliance tick a b L =
     (if a = b \<or> allianceIdOf L a \<noteq> None \<or> allianceIdOf L b \<noteq> None
      then Inl InvariantViolation
      else let k = nextAllianceId L
           in Inr (L\<lparr>alliances := (alliances L)
                       (k \<mapsto> \<lparr>members = {a, b}, lastMaintainedTick = tick, formedTick = tick\<rparr>),
                     allianceIdOf := (allianceIdOf L)(a \<mapsto> k, b \<mapsto> k),
                     nextAllianceId := Suc k\<rparr>))"

text \<open>Modelled from the spec: "maintain alliance" of section 4.3, "agent already in an
  alliance updates its alliance's lastMaintainedTick to the current tick; no-op if not in an
  alliance".\<close>

definition maintainAlliance :: "nat \<Rightarrow> nat \<Rightarrow> ledger \<Rightarrow> ledger" where
  "maintainAlliance tick a L =
     (case allianceIdOf L a of
        None \<Rightarrow> L
      | Some k \<Rightarrow>
          (case alliances L k of
             None \<Rightarrow> L
           | Some al \<Rightarrow> L\<lparr>alliances := (alliances L)(k \<mapsto> al\<lparr>lastMaintainedTick := tick\<rparr>)\<rparr>))"

text \<open>Modelled from the spec: "leave alliance" of section 4.3 and the removal of an
  incapacitated member (section 3): "removes the agent from its alliance; if membership
  falls below 2, alliance dissolves, remaining member's allianceId cleared".\<close>

definition removeMember :: "nat \<Rightarrow> ledger \<Rightarrow> ledger" where
  "removeMember a L =
     (case allianceIdOf L a of
        None \<Rightarrow> L
      | Some k \<Rightarrow>
          (case alliances L k of
             None \<Rightarrow> L\<lparr>allianceIdOf := (allianceIdOf L)(a := None)\<rparr>
           | Some al \<Rightarrow>
               (let rest = members al - {a}
                in if card rest < 2
                   then L\<lparr>alliances := (alliances L)(k := None),
                          allianceIdOf := (\<lambda>x. if x = a \<or> x \<in> rest then None else allianceIdOf L x)\<rparr>
                   else L\<lparr>alliances := (alliances L)(k \<mapsto> al\<lparr>members := rest\<rparr>),
                          allianceIdOf := (allianceIdOf L)(a := None)\<rparr>)))"

text \<open>Modelled from the spec: the events that change the ledger (section 4.4), with the
  tick where the spec uses it.\<close>

datatype ledger_op =
    Form nat nat nat
  | Maintain nat nat
  | Leave nat
  | Incapacitation nat

text \<open>Modelled from the spec: the ledger's transition on one event.\<close>

fun applyOp :: "ledger_op \<Rightarrow> ledger \<Rightarrow> ledger_error + ledger" where
  "applyOp (Form tick a b) L = formAlliance tick a b L"
| "applyOp (Maintain tick a) L = Inr (maintainAlliance tick a L)"
| "applyOp (Leave a) L = Inr (removeMember a L)"
| "applyOp (Incapacitation a) L = Inr (removeMember a L)"

text \<open>Modelled from the spec: the ledger states the resolver can reach are those a
  sequence of events produces from the empty ledger; a fatal error ends the run.\<close>

fun applyOps :: "ledger_op list \<Rightarrow> ledger \<Rightarrow> ledger_error + ledger" where
  "applyOps [] L = Inr L"
| "applyOps (op # ops) L =
     (case applyOp op L of Inl e \<Rightarrow> Inl e | Inr L1 \<Rightarrow> applyOps ops L1)"

text \<open>Modelled from the spec: the states of an alliance id (section 4.4): absent (not yet
  allocated), active, dissolved.\<close>

datatype alliance_state = Absent | Active | Dissolved

text \<open>Modelled from the spec: an id is active while the ledger holds its alliance,
  dissolved when it was allocated and the ledger holds it no more, absent before it is
  allocated.\<close>

definition allianceState :: "ledger \<Rightarrow> nat \<Rightarrow> alliance_state" where
  "allianceState L k =
     (if alliances L k \<noteq> None then Active
      else if k < nextAllianceId L then Dissolved
      else Absent)"

text \<open>The invariant of the ledger: an active alliance has a finite member set of at least
  two agents, an allocated id, and each member's alliance id refers to it; an agent's
  alliance id refers to an active alliance that contains the agent.\<close>

definition ledgerInv :: "ledger \<Rightarrow> bool" where
  "ledgerInv L =
     ((\<forall>k al. alliances L k = Some al \<longrightarrow>
          finite (members al) \<and> 2 \<le> card (members al) \<and> k < nextAllianceId L
          \<and> (\<forall>a \<in> members al. allianceIdOf L a = Some k))
      \<and> (\<forall>a k. allianceIdOf L a = Some k \<longrightarrow> (\<exists>al. alliances L k = Some al \<and> a \<in> members al)))"

text \<open>An allocated alliance id with no active alliance.\<close>

definition gone :: "ledger \<Rightarrow> nat \<Rightarrow> bool" where
  "gone L k = (alliances L k = None \<and> k < nextAllianceId L)"

subsection \<open>Sample inputs of the simulation core\<close>

text \<open>A grid of two cells, one of them an obstacle; one agent; two alliances formed, one
  of them left by a member.\<close>

definition tinyGrid :: grid where
  "tinyGrid = \<lparr>width = 2, height = 1, obstacles = [(0, 0)], food = [], foodCount = 1\<rparr>"

definition loneAgent :: "agent list" where
  "loneAgent = map newAgent [((0, 0), Cooperative)]"

definition sampleOps :: "ledger_op list" where
  "sampleOps = [Form 3 0 1, Maintain 4 1, Form 5 2 3, Leave 0]"

section \<open>Properties of the bridge server\<close>

subsection \<open>Slices\<close>

lemma js_slice_neg: "0 < n \<Longrightarrow> js_slice (- int n) xs = drop (length xs - n) xs"
  by (auto simp: js_slice_def Let_def max_def nat_diff_distrib' intro: arg_cong2[where f=drop])

lemma js_slice_append:
  assumes "0 < n"
  shows "js_slice (- int n) (js_slice (- int n) xs @ ys) = js_slice (- int n) (xs @ ys)"
proof (cases "length xs \<le> n")
  case True
  then show ?thesis using assms by (simp add: js_slice_neg)
next
  case False
  define a where "a = length xs - n"
  have a: "a \<le> length xs" "length (drop a xs) = n" "length (xs @ ys) - n = length ys + a"
    using False by (auto simp: a_def)
  have "js_slice (- int n) (drop a xs @ ys) = drop (length ys) (drop a xs @ ys)"
    using assms a by (simp add: js_slice_neg del: drop_append)
  also have "\<dots> = drop (length ys) (drop a (xs @ ys))"
    using a by simp
  also have "\<dots> = drop (length (xs @ ys) - n) (xs @ ys)"
    unfolding a(3) drop_drop ..
  finally show ?thesis
    using assms by (simp add: js_slice_neg a_def)
qed

lemma js_slice_slice:
  assumes "0 < m" "m \<le> n"
  shows "js_slice (- int m) (js_slice (- int n) xs) = js_slice (- int m) xs"
proof -
  have "length (drop (length xs - n) xs) - m + (length xs - n) = length xs - m"
    using assms by auto
  then show ?thesis using assms by (simp add: js_slice_neg del: length_drop)
qed

lemma length_js_slice_neg: "0 < n \<Longrightarrow> length (js_slice (- int n) xs) \<le> n"
  by (simp add: js_slice_neg)

lemma set_js_slice: "set (js_slice k xs) \<subseteq> set xs"
  by (simp add: js_slice_def Let_def set_drop_subset)

lemma push_history_eq: "push_history d h = js_slice (- 100) (h @ [d])"
  using js_slice_neg[of 100 "h @ [d]"] by (auto simp: push_history_def Let_def)

subsection \<open>One input\<close>

lemmas outcome_defs = returns_def raises_def

lemma returns_fields [simp]:
  "after (returns st out) = st" "sent (returns st out) = out" "raised (returns st out) = False"
  by (simp_all add: returns_def)

lemma raises_fields [simp]:
  "after (raises st out) = st" "sent (raises st out) = out" "raised (raises st out) = True"
  by (simp_all add: raises_def)

lemma message_cases:
  "message v now s name data st =
     (if map_of (sockets st) s = Some ''python'' \<and> name = ''simulation_update''
        then simulation_update v s data now st
      else if map_of (sockets st) s = Some ''python'' \<and> name = ''episode_complete''
        then episode_complete v s data st
      else if map_of (sockets st) s = Some ''react'' \<and> name = ''request_update''
        then returns st (request_update v s st)
      else returns st [])"
  by (simp add: message_def split: option.splits)

lemma episode_complete_after:
  "episodeHistory (after (episode_complete v s data st)) =
     (if v = V2 \<or> \<not> episode_log_throws V1 data then push_history data (episodeHistory st)
      else episodeHistory st)"
  by (cases v) (simp_all add: episode_complete_def Let_def outcome_defs)

lemma episode_complete_sent:
  "sent (episode_complete v s data st) =
     (if v = V2 \<or> \<not> episode_log_throws V1 data then [Broadcast s (summary_event v) data]
      else [])"
  by (cases v) (simp_all add: episode_complete_def Let_def outcome_defs)


lemma episode_complete_rest:
  "latestSimulationState (after (episode_complete v s data st)) = latestSimulationState st"
  "sockets (after (episode_complete v s data st)) = sockets st"
  by (cases v; simp add: episode_complete_def Let_def outcome_defs)+

lemma simulation_update_after:
  "after (simulation_update v s data now st) =
     (if update_log_throws v data then st
      else st\<lparr>latestSimulationState := Some (with_timestamp (spread data) now)\<rparr>)"
  by (simp add: simulation_update_def Let_def outcome_defs)

lemma simulation_update_sent:
  "sent (simulation_update v s data now st) =
     (if update_log_throws v data then []
      else [Broadcast s ''state_update'' (JObj (with_timestamp (spread data) now))])"
  by (simp add: simulation_update_def Let_def outcome_defs)


lemma connection_fields:
  "episodeHistory (after (connection v s h st)) = episodeHistory st"
  "latestSimulationState (after (connection v s h st)) = latestSimulationState st"
  "raised (connection v s h st) = False"
  by (simp_all add: connection_def Let_def outcome_defs)

lemma disconnect_fields:
  "episodeHistory (disconnect s st) = episodeHistory st"
  "latestSimulationState (disconnect s st) = latestSimulationState st"
  by (simp_all add: disconnect_def Let_def split: option.splits)

lemma timer_latest: "latestSimulationState (timer v st) = latestSimulationState st"
  by (cases v) (simp_all add: timer_def)

lemma step_history:
  "episodeHistory (after (step v i st)) =
     (case handles_episode v st i of
        [] \<Rightarrow> (if snd i = Timer \<and> v = V2 \<and> length (episodeHistory st) > 100
               then js_slice (- 100) (episodeHistory st) else episodeHistory st)
      | d # _ \<Rightarrow> push_history d (episodeHistory st))"
proof (cases i)
  case (Pair now inp)
  show ?thesis
  proof (cases inp)
    case (Connection s h)
    then show ?thesis using Pair by (simp add: handles_episode_def connection_fields)
  next
    case (Message s name data)
    then show ?thesis using Pair
      by (simp add: handles_episode_def message_cases episode_complete_after
          simulation_update_after outcome_defs)
  next
    case (Disconnect s)
    then show ?thesis using Pair by (simp add: handles_episode_def disconnect_fields outcome_defs)
  next
    case Timer
    then show ?thesis using Pair
      by (cases v) (simp_all add: handles_episode_def timer_def outcome_defs)
  qed
qed

lemma handles_episode_cases:
  "handles_episode v st i = [] \<or> (\<exists>d. handles_episode v st i = [d])"
  by (auto simp: handles_episode_def split: input.splits)

lemma step_history_length:
  "length (episodeHistory st) \<le> 100 \<Longrightarrow> length (episodeHistory (after (step v i st))) \<le> 100"
  using handles_episode_cases[of v st i] length_js_slice_neg[of 100]
  by (auto simp: step_history push_history_eq)

lemma step_history_set:
  "set (episodeHistory (after (step v i st)))
     \<subseteq> set (episodeHistory st) \<union> set (handles_episode v st i)"
  using handles_episode_cases[of v st i] set_js_slice[of "- 100" "episodeHistory st"]
    set_js_slice[of "- 100" "episodeHistory st @ hd (handles_episode v st i) # []"]
  by (auto simp: step_history push_history_eq split: list.splits if_splits)

lemma step_latest:
  "latestSimulationState (after (step v i st)) =
     (case handles_update v st i of [] \<Rightarrow> latestSimulationState st | u # us \<Rightarrow> Some u)"
proof (cases i)
  case (Pair now inp)
  show ?thesis
  proof (cases inp)
    case (Connection s h)
    then show ?thesis using Pair by (simp add: handles_update_def connection_fields)
  next
    case (Message s name data)
    then show ?thesis using Pair
      by (simp add: handles_update_def message_cases episode_complete_rest
          simulation_update_after outcome_defs)
  next
    case (Disconnect s)
    then show ?thesis using Pair by (simp add: handles_update_def disconnect_fields outcome_defs)
  next
    case Timer
    then show ?thesis using Pair by (simp add: handles_update_def timer_latest outcome_defs)
  qed
qed

lemma handles_update_cases:
  "handles_update v st i = [] \<or> (\<exists>u. handles_update v st i = [u])"
  by (auto simp: handles_update_def split: input.splits)

subsection \<open>Runs\<close>

lemma run_after:
  "after (run v (i # tr) st) =
     (if raised (step v i st) then after (step v i st)
      else after (run v tr (after (step v i st))))"
  by (simp add: Let_def)

lemma run_sent:
  "sent (run v (i # tr) st) =
     (if raised (step v i st) then sent (step v i st)
      else sent (step v i st) @ sent (run v tr (after (step v i st))))"
  by (simp add: Let_def)


lemma run_Nil: "after (run v [] st) = st" "sent (run v [] st) = []" "raised (run v [] st) = False"
  by simp_all

lemma run_history:
  "length (episodeHistory st) \<le> 100 \<Longrightarrow>
   episodeHistory (after (run v tr st))
     = js_slice (- 100) (episodeHistory st @ episodes_stored v tr st)"
proof (induction tr arbitrary: st)
  case Nil
  then show ?case using js_slice_neg[of 100 "episodeHistory st"] by (simp add: run_Nil)
next
  case (Cons i tr)
  let ?st1 = "after (step v i st)"
  have len1: "length (episodeHistory ?st1) \<le> 100"
    using Cons.prems by (rule step_history_length)
  have one: "episodeHistory ?st1 = js_slice (- 100) (episodeHistory st @ handles_episode v st i)"
    using handles_episode_cases[of v st i] Cons.prems js_slice_neg[of 100 "episodeHistory st"]
    by (auto simp: step_history push_history_eq)
  show ?case
  proof (cases "raised (step v i st)")
    case True
    then show ?thesis using one by (simp add: run_after del: run.simps)
  next
    case False
    have "episodeHistory (after (run v tr ?st1))
            = js_slice (- 100) (episodeHistory ?st1 @ episodes_stored v tr ?st1)"
      using len1 by (rule Cons.IH)
    then show ?thesis
      using False one
        js_slice_append[of 100 "episodeHistory st @ handles_episode v st i"
          "episodes_stored v tr ?st1"]
      by (simp add: run_after del: run.simps)
  qed
qed

lemma run_latest:
  "latestSimulationState (after (run v tr st)) =
     (if updates_stored v tr st = [] then latestSimulationState st
      else Some (last (updates_stored v tr st)))"
proof (induction tr arbitrary: st)
  case Nil
  show ?case by (simp add: run_Nil)
next
  case (Cons i tr)
  show ?case
    using handles_update_cases[of v st i] Cons.IH[of "after (step v i st)"]
    by (auto simp: run_after step_latest simp del: run.simps)
qed

subsection \<open>Summary events and the episode history\<close>

lemma broadcasts_append: "broadcasts n (xs @ ys) = broadcasts n xs @ broadcasts n ys"
  by (simp add: broadcasts_def)

lemma emits_append: "emits n (xs @ ys) = emits n xs @ emits n ys"
  by (simp add: emits_def)

lemma broadcasts_send_state: "broadcasts n (send_state s st) = []"
  by (auto simp: broadcasts_def send_state_def split: option.splits)

lemma broadcasts_replay: "broadcasts n (replay_history s st) = []"
  by (auto simp: broadcasts_def replay_history_def)

lemma broadcasts_request: "broadcasts n (request_update v s st) = []"
  by (cases v) (simp_all add: request_update_def broadcasts_append broadcasts_send_state
      broadcasts_replay)

lemma broadcasts_connection: "broadcasts n (sent (connection v s h st)) = []"
  by (cases v)
     (simp_all add: connection_def Let_def react_connected_def broadcasts_append
        broadcasts_send_state broadcasts_replay,
      simp_all add: broadcasts_def connection_confirmed_def history_update_def)

lemma step_broadcasts:
  "broadcasts (summary_event v) (sent (step v i st)) = handles_episode v st i"
proof (cases i)
  case (Pair now inp)
  show ?thesis
  proof (cases inp)
    case (Connection s h)
    then show ?thesis using Pair by (simp add: handles_episode_def broadcasts_connection)
  next
    case (Message s name data)
    have "summary_event v \<noteq> ''state_update''" by (cases v) (simp_all add: summary_event_def)
    then show ?thesis using Pair Message
      by (simp add: handles_episode_def message_cases episode_complete_sent
          simulation_update_sent broadcasts_request)
         (simp add: broadcasts_def)
  next
    case (Disconnect s)
    then show ?thesis using Pair by (simp add: handles_episode_def broadcasts_def)
  next
    case Timer
    then show ?thesis using Pair by (simp add: handles_episode_def broadcasts_def)
  qed
qed

lemma run_broadcasts:
  "broadcasts (summary_event v) (sent (run v tr st)) = episodes_stored v tr st"
proof (induction tr arbitrary: st)
  case Nil
  show ?case by (simp add: broadcasts_def)
next
  case (Cons i tr)
  show ?case
    using Cons.IH[of "after (step v i st)"]
    by (simp add: run_sent broadcasts_append step_broadcasts del: run.simps)
qed

lemma emits_send_state: "n \<noteq> ''state_update'' \<Longrightarrow> emits n (send_state s st) = []"
  by (auto simp: emits_def send_state_def split: option.splits)

lemma emits_replay: "set (emits n (replay_history s st)) \<subseteq> set (episodeHistory st)"
  using set_js_slice[of "- 20" "episodeHistory st"]
  by (auto simp: emits_def replay_history_def)

lemma emits_summary_react:
  "set (emits (summary_event v) (react_connected v s st)) \<subseteq> set (episodeHistory st)"
  "set (emits (summary_event v) (request_update v s st)) \<subseteq> set (episodeHistory st)"
  using emits_replay[of "summary_event v" s st]
  by (cases v; simp add: react_connected_def request_update_def emits_append emits_send_state
        summary_event_def; simp add: emits_def history_update_def)+

lemma step_emits:
  "set (emits (summary_event v) (sent (step v i st))) \<subseteq> set (episodeHistory st)"
proof (cases i)
  case (Pair now inp)
  show ?thesis
  proof (cases inp)
    case (Connection s h)
    note rc = emits_summary_react(1)[of v s "st\<lparr>connectedClients := connectedClients st + 1,
                   sockets := AList.update s (clientType h) (sockets st)\<rparr>"]
    have py: "emits (summary_event v) [connection_confirmed s] = []"
      by (cases v) (simp_all add: emits_def connection_confirmed_def summary_event_def)
    show ?thesis using Pair Connection rc py
      by (cases "clientType h = ''react''")
         (simp_all add: connection_def Let_def, simp_all add: emits_def)
  next
    case (Message s name data)
    have b: "emits n [Broadcast s' m b] = []" "emits n [] = []" for n s' m b
      by (simp_all add: emits_def)
    show ?thesis unfolding Pair Message step.simps message_cases
      using emits_summary_react(2)[of v s st]
      by (auto simp: episode_complete_sent simulation_update_sent b)
  next
    case (Disconnect s)
    then show ?thesis using Pair by (simp add: emits_def)
  next
    case Timer
    then show ?thesis using Pair by (simp add: emits_def)
  qed
qed

lemma run_emits:
  "set (emits (summary_event v) (sent (run v tr st)))
     \<subseteq> set (episodeHistory st) \<union> set (episodes_stored v tr st)"
proof (induction tr arbitrary: st)
  case Nil
  show ?case by (simp add: emits_def)
next
  case (Cons i tr)
  let ?st1 = "after (step v i st)"
  have "set (emits (summary_event v) (sent (run v tr ?st1)))
          \<subseteq> set (episodeHistory ?st1) \<union> set (episodes_stored v tr ?st1)"
    by (rule Cons.IH)
  then have "set (emits (summary_event v) (sent (run v tr ?st1)))
          \<subseteq> set (episodeHistory st) \<union> set (handles_episode v st i)
            \<union> set (episodes_stored v tr ?st1)"
    using step_history_set[of v i st] by auto
  then show ?case
    using step_emits[of v i st]
    by (auto simp: run_sent emits_append simp del: run.simps)
qed

lemma handles_episode_payload:
  "set (handles_episode v st i) \<subseteq> set (episode_payloads (i # tr))"
proof (cases i)
  case (Pair now inp)
  then show ?thesis by (cases inp) (auto simp: handles_episode_def)
qed

lemma episode_payloads_Cons: "set (episode_payloads tr) \<subseteq> set (episode_payloads (i # tr))"
proof (cases i)
  case (Pair now inp)
  then show ?thesis by (cases inp) auto
qed

lemma stored_payloads: "set (episodes_stored v tr st) \<subseteq> set (episode_payloads tr)"
proof (induction tr arbitrary: st)
  case Nil
  show ?case by simp
next
  case (Cons i tr)
  show ?case
    using Cons.IH[of "after (step v i st)"] handles_episode_payload[of v st i tr]
      episode_payloads_Cons[of tr i]
    by (auto simp del: episode_payloads.simps)
qed

lemma python_online_sockets: "map_of (sockets (python_online v)) ''py'' = Some ''python''"
  by (simp add: python_online_def connection_def python_handshake_def clientType_def or_else_def
      initial_state_def Let_def)

lemma python_online_eq:
  "python_online v = \<lparr>connectedClients = 1, pythonConnected = True,
     latestSimulationState = None, episodeHistory = [], sockets = [(''py'', ''python'')]\<rparr>"
  by (simp add: python_online_def connection_def python_handshake_def clientType_def or_else_def
      initial_state_def Let_def)

text \<open>C1, amended. When the Python client's socket receives \<open>episode_complete\<close> with a
  payload that the log lines can print (variant 1 logs before it stores and sends; in
  variant 2 the payload may be any), the handler sends exactly one broadcast, the summary
  event carrying the received payload, to the other connected sockets, and pushes that
  payload onto the episode history (which is then cut to its last 100 entries). Over a
  whole run from the initial state, the summary broadcasts are, in order, exactly the
  payloads stored; every summary event sent to a single socket carries a stored payload;
  and every stored payload is the payload of an \<open>episode_complete\<close> event of the run.\<close>

theorem episode_complete_once:
  "(\<forall>st s now data.
      map_of (sockets st) s = Some ''python'' \<and> (v = V2 \<or> \<not> episode_log_throws V1 data) \<longrightarrow>
        sent (step v (now, Message s ''episode_complete'' data) st)
          = [Broadcast s (summary_event v) data]
      \<and> set (recipients (sockets st) (Broadcast s (summary_event v) data))
          = fst ` set (sockets st) - {s}
      \<and> episodeHistory (after (step v (now, Message s ''episode_complete'' data) st))
          = js_slice (- 100) (episodeHistory st @ [data]))
   \<and> (\<forall>tr. broadcasts (summary_event v) (sent (run v tr initial_state))
              = episodes_stored v tr initial_state
          \<and> set (emits (summary_event v) (sent (run v tr initial_state)))
              \<subseteq> set (episodes_stored v tr initial_state)
          \<and> set (episodes_stored v tr initial_state) \<subseteq> set (episode_payloads tr))"
proof -
  have "set (emits (summary_event v) (sent (run v tr initial_state)))
          \<subseteq> set (episodes_stored v tr initial_state)" for tr
    using run_emits[of v tr initial_state] by (simp add: initial_state_def)
  then show ?thesis
    using stored_payloads[of v _ initial_state]
    by (auto simp: run_broadcasts message_cases episode_complete_sent episode_complete_after
        push_history_eq)
qed

lemma sample_stored:
  "episodes_stored v sample_session initial_state = [JObj [(''episode'', JNum 1)]]"
  by (cases v)
     (simp_all add: sample_session_def handles_episode_def connection_def python_handshake_def
        react_handshake_def clientType_def or_else_def initial_state_def Let_def message_cases
        simulation_update_def episode_complete_def update_log_throws_def
        episode_log_throws_def print_throws_def field_of_def)

text \<open>C1, amended, at the sample session, and in variant 2 at an event with no payload.\<close>

theorem episode_complete_once_witness:
  "sent (step V1 (1002, Message ''py'' ''episode_complete'' (JObj [(''episode'', JNum 1)]))
          (python_online V1))
     = [Broadcast ''py'' ''episode_complete'' (JObj [(''episode'', JNum 1)])]
   \<and> sent (step V2 (1002, Message ''py'' ''episode_complete'' JNull) (python_online V2))
     = [Broadcast ''py'' ''episode_summary'' JNull]
   \<and> broadcasts ''episode_complete'' (sent (run V1 sample_session initial_state))
     = [JObj [(''episode'', JNum 1)]]"
proof -
  have p: "\<not> episode_log_throws V1 (JObj [(''episode'', JNum 1)])"
    by (simp add: episode_log_throws_def print_throws_def field_of_def)
  show ?thesis
    using episode_complete_once[of V1] episode_complete_once[of V2] p
      python_online_sockets[of V1] python_online_sockets[of V2]
    by (simp add: summary_event_def sample_stored)
qed

text \<open>C1 as stated fails in variant 1: an \<open>episode_complete\<close> event with no payload, or
  with a summary whose \<open>episode\<close> field cannot be converted to a string, makes the first
  log line raise, so that nothing is stored and nothing is broadcast.\<close>

theorem unprintable_summary_lost:
  "step V1 (1002, Message ''py'' ''episode_complete'' JNull) (python_online V1)
     = \<lparr>after = python_online V1, sent = [], raised = True\<rparr>
   \<and> step V1 (1002, Message ''py'' ''episode_complete'' unprintable) (python_online V1)
     = \<lparr>after = python_online V1, sent = [], raised = True\<rparr>"
  by (simp add: message_cases python_online_sockets episode_complete_def Let_def
      episode_log_throws_def print_throws_def field_of_def unprintable_def raises_def)

text \<open>C9. After any run from the initial state the episode history is the last 100 of the
  stored \<open>episode_complete\<close> payloads, so it never holds more than 100 entries, and
  \<open>GET /api/history\<close> answers with the last 50 of them and the latest simulation state,
  which is the last snapshot stored, with its timestamp, or null when none was.\<close>

theorem history_bounded:
  "episodeHistory (after (run v tr initial_state))
     = js_slice (- 100) (episodes_stored v tr initial_state)
   \<and> length (episodeHistory (after (run v tr initial_state))) \<le> 100
   \<and> episodes (api_history (after (run v tr initial_state)))
     = js_slice (- 50) (episodes_stored v tr initial_state)
   \<and> length (episodes (api_history (after (run v tr initial_state)))) \<le> 50
   \<and> currentState (api_history (after (run v tr initial_state)))
     = latestSimulationState (after (run v tr initial_state))
   \<and> latestSimulationState (after (run v tr initial_state))
     = (if updates_stored v tr initial_state = [] then None
        else Some (last (updates_stored v tr initial_state)))"
proof -
  have h: "episodeHistory (after (run v tr initial_state))
            = js_slice (- 100) (episodes_stored v tr initial_state)"
    using run_history[of initial_state v tr] by (simp add: initial_state_def)
  have "js_slice (- 50) (js_slice (- 100) xs) = js_slice (- 50) xs" for xs :: "jsval list"
    using js_slice_slice[of 50 100 xs] by simp
  with h show ?thesis
    using length_js_slice_neg[of 100 "episodes_stored v tr initial_state"]
      length_js_slice_neg[of 50 "episodes_stored v tr initial_state"]
      run_latest[of v tr initial_state]
    by (simp add: api_history_def) (simp add: initial_state_def)
qed

text \<open>C9, at the sample session.\<close>

theorem history_bounded_witness:
  "episodes (api_history (after (run V2 sample_session initial_state)))
     = [JObj [(''episode'', JNum 1)]]"
  using history_bounded[of V2 sample_session]
  by (simp add: sample_stored js_slice_def)

lemma with_timestamp_absent:
  "''timestamp'' \<notin> fst ` set fs \<Longrightarrow>
   with_timestamp fs now = fs @ [(''timestamp'', JNum (of_int now))]"
  unfolding with_timestamp_def by (induction fs) auto

text \<open>C2, amended. The \<open>state_update\<close> broadcast, which is sent unless the log line raises,
  carries the incoming payload with the field \<open>timestamp\<close> set to the server's clock:
  every field other than \<open>timestamp\<close> is unchanged, no field is dropped or renamed, and
  \<open>timestamp\<close> is appended when the incoming payload has no such field and overwritten
  in place when it has one.\<close>

theorem simulation_update_relay:
  "map_of (sockets st) s = Some ''python'' \<Longrightarrow>
     sent (step v (now, Message s ''simulation_update'' data) st)
       = (if update_log_throws v data then []
          else [Broadcast s ''state_update'' (JObj (with_timestamp (spread data) now))])
   \<and> spread (JObj fs) = fs
   \<and> map_of (with_timestamp fs now) ''timestamp'' = Some (JNum (of_int now))
   \<and> (\<forall>k. k \<noteq> ''timestamp'' \<longrightarrow> map_of (with_timestamp fs now) k = map_of fs k)
   \<and> (''timestamp'' \<in> fst ` set fs \<longrightarrow>
        map fst (with_timestamp fs now) = map fst fs)
   \<and> (''timestamp'' \<notin> fst ` set fs \<longrightarrow>
        with_timestamp fs now = fs @ [(''timestamp'', JNum (of_int now))])"
  by (simp add: message_cases simulation_update_sent with_timestamp_absent spread_def)
     (simp add: with_timestamp_def update_conv' update_keys)

text \<open>C2, amended, at the sample session's snapshot.\<close>

theorem simulation_update_relay_witness:
  "sent (step V1 (1001, Message ''py'' ''simulation_update''
                   (JObj [(''episode'', JNum 1), (''step'', JNum 10)])) (python_online V1))
     = [Broadcast ''py'' ''state_update''
          (JObj [(''episode'', JNum 1), (''step'', JNum 10), (''timestamp'', JNum 1001)])]
   \<and> map_of (with_timestamp [(''episode'', JNum 1), (''step'', JNum 10)] 1001) ''step''
     = Some (JNum 10)"
proof -
  have p: "\<not> update_log_throws V1 (JObj [(''episode'', JNum 1), (''step'', JNum 10)])"
    by (simp add: update_log_throws_def print_throws_def field_of_def)
  show ?thesis
    using simulation_update_relay[OF python_online_sockets[of V1], where v = V1 and now = 1001
        and data = "JObj [(''episode'', JNum 1), (''step'', JNum 10)]"
        and fs = "[(''episode'', JNum 1), (''step'', JNum 10)]"] p
    by (simp add: with_timestamp_def spread_def)
qed

text \<open>C2 as stated fails for a payload that already has a \<open>timestamp\<close> field: the
  broadcast adds no field and does not preserve the incoming \<open>timestamp\<close>.\<close>

theorem timestamp_overwritten:
  "sent (step V1 (2000, Message ''py'' ''simulation_update''
                   (JObj [(''step'', JNum 7), (''timestamp'', JNum 1)])) (python_online V1))
     = [Broadcast ''py'' ''state_update'' (JObj [(''step'', JNum 7), (''timestamp'', JNum 2000)])]"
  by (simp add: python_online_sockets message_cases simulation_update_sent with_timestamp_def
      spread_def update_log_throws_def print_throws_def field_of_def)

subsection \<open>The two variants compared\<close>



















section \<open>Properties of the simulation core as modelled\<close>

subsection \<open>Food\<close>

lemma foodCellCount_card: "foodCellCount g = card (fst ` set (food g))"
  by (simp add: foodCellCount_def length_remdups_card_conv)

lemma spawnFood_free:
  assumes "freeCells g \<noteq> []"
  shows "\<exists>c. c \<in> set (allCells g) \<and> c \<notin> set (obstacles g) \<and> map_of (food g) c = None
           \<and> food (spawnFood r g) = food g @ [(c, 1)]
           \<and> foodCellCount (spawnFood r g) = foodCellCount g + 1"
proof -
  let ?free = "freeCells g"
  let ?c = "?free ! (r mod length ?free)"
  have "?c \<in> set ?free" using assms by simp
  then have c: "?c \<in> set (allCells g)" "?c \<notin> set (obstacles g)" "map_of (food g) ?c = None"
    by (simp_all add: freeCells_def)
  then have "?c \<notin> fst ` set (food g)" by (simp add: map_of_eq_None_iff)
  then have "foodCellCount (spawnFood r g) = foodCellCount g + 1"
    using assms by (simp add: foodCellCount_card spawnFood_def Let_def)
  moreover have "food (spawnFood r g) = food g @ [(?c, 1)]"
    using assms by (simp add: spawnFood_def Let_def)
  ultimately show ?thesis using c by blast
qed

lemma spawnFood_none: "freeCells g = [] \<Longrightarrow> spawnFood r g = g"
  by (simp add: spawnFood_def)

lemma spawnFood_count: "foodCellCount (spawnFood r g) \<le> foodCellCount g + 1"
  using spawnFood_free[of g r] spawnFood_none[of g r] by (cases "freeCells g = []") auto

lemma spawnFood_fields:
  "obstacles (spawnFood r g) = obstacles g" "foodCount (spawnFood r g) = foodCount g"
  "width (spawnFood r g) = width g" "height (spawnFood r g) = height g"
  by (simp_all add: spawnFood_def Let_def)

lemma collectFoodAt_count:
  "foodCellCount (snd (collectFoodAt c g)) =
     (if map_of (food g) c = None then foodCellCount g else foodCellCount g - 1)"
proof (cases "map_of (food g) c")
  case None
  then show ?thesis by (simp add: collectFoodAt_def)
next
  case (Some a)
  then have "c \<in> fst ` set (food g)" by (metis map_of_eq_None_iff option.distinct(1))
  moreover have "fst ` set (AList.delete c (food g)) = fst ` set (food g) - {c}"
    using delete_keys[of c "food g"] by (metis list.set_map set_removeAll)
  ultimately show ?thesis using Some
    by (simp add: collectFoodAt_def foodCellCount_card)
qed

lemma collectFoodAt_fields:
  "obstacles (snd (collectFoodAt c g)) = obstacles g" "foodCount (snd (collectFoodAt c g)) = foodCount g"
  by (simp_all add: collectFoodAt_def split: option.splits)

lemma collectAndReplace_eq:
  "collectAndReplace (r, c) g =
     (if fst (collectFoodAt c g) > 0 then spawnFood r (snd (collectFoodAt c g))
      else snd (collectFoodAt c g))"
  by (simp add: collectAndReplace_def case_prod_unfold)

lemma collectAndReplace_count: "foodCellCount (collectAndReplace rc g) \<le> foodCellCount g"
proof -
  obtain r c where Pair: "rc = (r, c)" by (cases rc)
  have pos: "fst (collectFoodAt c g) > 0 \<Longrightarrow> map_of (food g) c \<noteq> None"
    by (auto simp: collectFoodAt_def split: option.splits)
  have "card (fst ` set (food g)) > 0" if "map_of (food g) c \<noteq> None"
    using that by (metis card_gt_0_iff List.finite_set finite_imageI empty_iff map_of_eq_None_iff)
  then show ?thesis
    using spawnFood_count[of r "snd (collectFoodAt c g)"] collectFoodAt_count[of c g] pos
    unfolding Pair collectAndReplace_eq by (auto simp: foodCellCount_card)
qed

lemma collectAndReplace_foodCount: "foodCount (collectAndReplace rc g) = foodCount g"
proof -
  obtain r c where "rc = (r, c)" by (cases rc)
  then show ?thesis by (simp add: collectAndReplace_eq spawnFood_fields collectFoodAt_fields)
qed

lemma run_collections:
  "foodCellCount (fold collectAndReplace ops g) \<le> foodCellCount g
   \<and> foodCount (fold collectAndReplace ops g) = foodCount g"
proof (induction ops arbitrary: g)
  case Nil
  show ?case by simp
next
  case (Cons rc ops)
  from Cons.IH[of "collectAndReplace rc g"] collectAndReplace_count[of rc g]
  show ?case by (simp add: collectAndReplace_foodCount)
qed

lemma fold_spawnFood:
  "foodCellCount (fold spawnFood draws g) \<le> foodCellCount g + length draws
   \<and> foodCount (fold spawnFood draws g) = foodCount g"
proof (induction draws arbitrary: g)
  case Nil
  show ?case by simp
next
  case (Cons r draws)
  from Cons.IH[of "spawnFood r g"] spawnFood_count[of r g]
  show ?case by (simp add: spawnFood_fields)
qed

lemma resetGrid_count:
  "foodCellCount (resetGrid w h obs draws) \<le> length draws
   \<and> foodCount (resetGrid w h obs draws) = length draws"
  using fold_spawnFood[of draws "\<lparr>width = w, height = h, obstacles = obs, food = [], foodCount = length draws\<rparr>"]
  by (simp add: resetGrid_def) (simp add: foodCellCount_def)

text \<open>C8. \<open>spawnFood\<close> on a grid with a free cell places one unit of food on a cell of the
  grid that is no obstacle and held no food, which makes one more food cell, and every
  free cell is the choice of some draw; on a grid with no free cell it returns the grid
  unchanged. A collection is followed by exactly one
  \<open>spawnFood\<close> when it collected something and by none otherwise, and in every grid
  reached from the start of an episode by collections the number of food cells is at most
  the configured food count.\<close>

lemma spawnFood_any:
  assumes "c \<in> set (freeCells g)"
  shows "\<exists>r. food (spawnFood r g) = food g @ [(c, 1)]"
proof -
  from assms obtain i where i: "i < length (freeCells g)" "freeCells g ! i = c"
    by (auto simp: in_set_conv_nth)
  then have "food (spawnFood i g) = food g @ [(c, 1)]"
    by (auto simp: spawnFood_def Let_def)
  then show ?thesis ..
qed

theorem spawnFood_contract:
  "(freeCells g \<noteq> [] \<longrightarrow>
      (\<exists>c. c \<in> set (allCells g) \<and> c \<notin> set (obstacles g) \<and> map_of (food g) c = None
          \<and> food (spawnFood r g) = food g @ [(c, 1)]
          \<and> foodCellCount (spawnFood r g) = foodCellCount g + 1))
   \<and> (\<forall>c' \<in> set (freeCells g). \<exists>r'. food (spawnFood r' g) = food g @ [(c', 1)])
   \<and> (freeCells g = [] \<longrightarrow> spawnFood r g = g)
   \<and> collectAndReplace (r, c) g =
       (if fst (collectFoodAt c g) > 0 then spawnFood r (snd (collectFoodAt c g))
        else snd (collectFoodAt c g))
   \<and> foodCellCount (fold collectAndReplace ops (resetGrid w h obs draws))
       \<le> foodCount (fold collectAndReplace ops (resetGrid w h obs draws))
   \<and> foodCount (fold collectAndReplace ops (resetGrid w h obs draws)) = length draws"
proof -
  have "foodCellCount (fold collectAndReplace ops (resetGrid w h obs draws)) \<le> length draws"
    using run_collections[of ops "resetGrid w h obs draws"] resetGrid_count[of w h obs draws]
    by simp
  then show ?thesis
    using spawnFood_free[of g r] spawnFood_none[of g r] collectAndReplace_eq[of r c g]
      run_collections[of ops "resetGrid w h obs draws"] resetGrid_count[of w h obs draws]
      spawnFood_any[of _ g]
    by simp
qed


lemma tiny_free: "freeCells tinyGrid = [(1, 0)]"
  by code_simp

lemma tiny_full: "freeCells (spawnFood 5 tinyGrid) = []"
  by code_simp

text \<open>C8, on the two-cell grid.\<close>

theorem spawnFood_contract_witness:
  "food (spawnFood 5 tinyGrid) = [((1, 0), 1)]
   \<and> spawnFood 7 (spawnFood 5 tinyGrid) = spawnFood 5 tinyGrid
   \<and> foodCellCount (fold collectAndReplace [(4, (1, 0))] (resetGrid 2 1 [(0, 0)] [5])) \<le> 1"
proof -
  have "food (spawnFood 5 tinyGrid) = [((1, 0), 1)]"
    by (simp add: spawnFood_def tiny_free Let_def) (simp add: tinyGrid_def)
  moreover have "spawnFood 7 (spawnFood 5 tinyGrid) = spawnFood 5 tinyGrid"
    using spawnFood_contract[of "spawnFood 5 tinyGrid" 7] tiny_full by simp
  moreover have "foodCellCount (fold collectAndReplace [(4, (1, 0))] (resetGrid 2 1 [(0, 0)] [5])) \<le> 1"
    using spawnFood_contract[of tinyGrid 0 "(0, 0)" "[(4, (1, 0))]" 2 1 "[(0, 0)]" "[5]"]
    by simp
  ultimately show ?thesis by blast
qed

subsection \<open>Health\<close>

lemma onLive_length: "length (onLive i f reg) = length reg"
  by (simp add: onLive_def)

lemma execute_length: "length (execute obs c reg) = length reg"
  by (cases c) (simp_all add: onLive_length)

lemma executeAll_length: "length (executeAll obs cs reg) = length reg"
  unfolding executeAll_def by (induction cs arbitrary: reg) (simp_all add: execute_length)

lemma onLive_bounds:
  assumes "\<forall>a \<in> set reg. 0 \<le> health a \<and> health a \<le> 100"
    and "\<And>a. 0 \<le> health a \<and> health a \<le> 100 \<Longrightarrow> 0 \<le> health (f a) \<and> health (f a) \<le> 100"
  shows "\<forall>a \<in> set (onLive i f reg). 0 \<le> health a \<and> health a \<le> 100"
proof (cases "i < length reg \<and> \<not> incapacitated (reg ! i)")
  case True
  then have "0 \<le> health (f (reg ! i)) \<and> health (f (reg ! i)) \<le> 100"
    using assms by simp
  then show ?thesis using assms(1) True
    by (auto simp: onLive_def dest!: subsetD[OF set_update_subset_insert])
next
  case False
  then show ?thesis using assms(1) by (auto simp: onLive_def)
qed

lemma execute_bounds:
  assumes "\<forall>a \<in> set reg. 0 \<le> health a \<and> health a \<le> 100"
  shows "\<forall>a \<in> set (execute obs c reg). 0 \<le> health a \<and> health a \<le> 100"
proof (cases c)
  case (Move i d)
  show ?thesis unfolding Move execute.simps
    by (rule onLive_bounds[OF assms]) (simp add: Let_def)
next
  case (ApplyHealthDelta i d)
  show ?thesis unfolding ApplyHealthDelta execute.simps
    by (rule onLive_bounds[OF assms]) (simp add: clampHealth_def)
next
  case (ApplyReward i r)
  show ?thesis unfolding ApplyReward execute.simps
    by (rule onLive_bounds[OF assms]) simp
next
  case (SetInventory i n)
  show ?thesis unfolding SetInventory execute.simps
    by (rule onLive_bounds[OF assms]) simp
next
  case (SetSignal i sig)
  show ?thesis unfolding SetSignal execute.simps
    by (rule onLive_bounds[OF assms]) simp
next
  case (Incapacitate i)
  show ?thesis unfolding Incapacitate execute.simps
    by (rule onLive_bounds[OF assms]) simp
qed

lemma executeAll_bounds:
  "\<forall>a \<in> set reg. 0 \<le> health a \<and> health a \<le> 100 \<Longrightarrow>
   \<forall>a \<in> set (executeAll obs cs reg). 0 \<le> health a \<and> health a \<le> 100"
  unfolding executeAll_def
proof (induction cs arbitrary: reg)
  case Nil
  then show ?case by simp
next
  case (Cons c cs)
  from Cons.IH[OF execute_bounds[OF Cons.prems]] show ?case by simp
qed

lemma onLive_frozen:
  "i < length reg \<Longrightarrow> incapacitated (reg ! i) \<Longrightarrow> onLive j f reg ! i = reg ! i"
  by (cases "i = j") (simp_all add: onLive_def)

lemma execute_frozen:
  "i < length reg \<Longrightarrow> incapacitated (reg ! i) \<Longrightarrow> execute obs c reg ! i = reg ! i"
  by (cases c) (simp_all add: onLive_frozen)

lemma executeAll_frozen:
  "i < length reg \<Longrightarrow> incapacitated (reg ! i) \<Longrightarrow> executeAll obs cs reg ! i = reg ! i"
  unfolding executeAll_def
proof (induction cs arbitrary: reg)
  case Nil
  show ?case by simp
next
  case (Cons c cs)
  have "fold (execute obs) cs (execute obs c reg) ! i = execute obs c reg ! i"
    using Cons.prems by (intro Cons.IH) (simp_all add: execute_length execute_frozen)
  then show ?case using Cons.prems by (simp add: execute_frozen)
qed

lemma health_delta_incapacitates:
  assumes "i < length reg" "health (reg ! i) + d \<le> 0"
  shows "incapacitated (execute obs (ApplyHealthDelta i d) reg ! i)"
proof (cases "incapacitated (reg ! i)")
  case True
  then show ?thesis using assms by (simp add: onLive_def)
next
  case False
  then show ?thesis using assms
    by (simp add: onLive_def incapacitated_def clampHealth_def)
qed

text \<open>C3. Whatever commands the resolver issues from the start of an episode, the registry
  keeps all its agents and every health is within [0,100]. A health delta that brings an
  agent's health to 0 or below leaves it incapacitated, in the registry; and no later
  command changes an incapacitated agent, so its cumulative score is frozen.\<close>

theorem health_bounded:
  "length (executeAll obs cs (map newAgent ps)) = length ps
   \<and> (\<forall>a \<in> set (executeAll obs cs (map newAgent ps)). 0 \<le> health a \<and> health a \<le> 100)
   \<and> (\<forall>reg i d. i < length reg \<and> health (reg ! i) + d \<le> 0 \<longrightarrow>
         incapacitated (execute obs (ApplyHealthDelta i d) reg ! i)
         \<and> length (execute obs (ApplyHealthDelta i d) reg) = length reg)
   \<and> (\<forall>reg i cs'. i < length reg \<and> incapacitated (reg ! i) \<longrightarrow>
         executeAll obs cs' reg ! i = reg ! i
         \<and> length (executeAll obs cs' reg) = length reg)"
proof -
  have "\<forall>a \<in> set (map newAgent ps). 0 \<le> health a \<and> health a \<le> 100"
    by (simp add: newAgent_def)
  from executeAll_bounds[OF this, of obs cs] show ?thesis
    using executeAll_length execute_length health_delta_incapacitates executeAll_frozen
    by (simp del: execute.simps)
qed


text \<open>C3, for one agent hit by a health delta of -120.\<close>

theorem health_bounded_witness:
  "incapacitated (execute [] (ApplyHealthDelta 0 (- 120)) loneAgent ! 0)
   \<and> executeAll [] [ApplyReward 0 5, ApplyHealthDelta 0 10]
        (execute [] (ApplyHealthDelta 0 (- 120)) loneAgent) ! 0
      = execute [] (ApplyHealthDelta 0 (- 120)) loneAgent ! 0
   \<and> length (executeAll [] [ApplyHealthDelta 0 (- 120)] (map newAgent [((0, 0), Cooperative)])) = 1"
proof -
  have h: "0 < length loneAgent \<and> health (loneAgent ! 0) + (- 120) \<le> 0"
    by (simp add: loneAgent_def newAgent_def)
  note t = health_bounded[of "[]" "[ApplyHealthDelta 0 (- 120)]" "[((0, 0), Cooperative)]"]
  from t h have dead: "incapacitated (execute [] (ApplyHealthDelta 0 (- 120)) loneAgent ! 0)"
    and len: "length (execute [] (ApplyHealthDelta 0 (- 120)) loneAgent) = length loneAgent"
    by blast+
  then have "0 < length (execute [] (ApplyHealthDelta 0 (- 120)) loneAgent)
      \<and> incapacitated (execute [] (ApplyHealthDelta 0 (- 120)) loneAgent ! 0)"
    using h by simp
  with t have "executeAll [] [ApplyReward 0 5, ApplyHealthDelta 0 10]
        (execute [] (ApplyHealthDelta 0 (- 120)) loneAgent) ! 0
      = execute [] (ApplyHealthDelta 0 (- 120)) loneAgent ! 0"
    by blast
  with dead t show ?thesis by simp
qed

subsection \<open>Alliances\<close>

lemma inv_empty: "ledgerInv emptyLedger"
  by (simp add: ledgerInv_def emptyLedger_def)

lemma inv_active:
  assumes "ledgerInv L" "alliances L k = Some al"
  shows "finite (members al)" "2 \<le> card (members al)" "k < nextAllianceId L"
    "\<And>a. a \<in> members al \<Longrightarrow> allianceIdOf L a = Some k"
  using assms unfolding ledgerInv_def by blast+

lemma inv_ref:
  assumes "ledgerInv L" "allianceIdOf L a = Some k"
  obtains al where "alliances L k = Some al" "a \<in> members al"
  using assms unfolding ledgerInv_def by blast

lemma invI:
  assumes "\<And>k al. alliances L k = Some al \<Longrightarrow>
              finite (members al) \<and> 2 \<le> card (members al) \<and> k < nextAllianceId L
              \<and> (\<forall>a \<in> members al. allianceIdOf L a = Some k)"
    and "\<And>a k. allianceIdOf L a = Some k \<Longrightarrow> \<exists>al. alliances L k = Some al \<and> a \<in> members al"
  shows "ledgerInv L"
  using assms unfolding ledgerInv_def by blast

lemma inv_form:
  assumes inv: "ledgerInv L" and form: "formAlliance tick a b L = Inr L'"
  shows "ledgerInv L'"
proof -
  let ?k = "nextAllianceId L"
  from form have ab: "a \<noteq> b" "allianceIdOf L a = None" "allianceIdOf L b = None"
    and L': "L' = L\<lparr>alliances := (alliances L)
                       (?k \<mapsto> \<lparr>members = {a, b}, lastMaintainedTick = tick, formedTick = tick\<rparr>),
                     allianceIdOf := (allianceIdOf L)(a \<mapsto> ?k, b \<mapsto> ?k),
                     nextAllianceId := Suc ?k\<rparr>"
    by (auto simp: formAlliance_def Let_def split: if_splits)
  have fresh: "alliances L ?k = None"
    using inv_active(3)[OF inv, of ?k] by (cases "alliances L ?k") auto
  show ?thesis
  proof (rule invI)
    fix k al assume act: "alliances L' k = Some al"
    show "finite (members al) \<and> 2 \<le> card (members al) \<and> k < nextAllianceId L'
              \<and> (\<forall>x \<in> members al. allianceIdOf L' x = Some k)"
    proof (cases "k = ?k")
      case True
      then have "al = \<lparr>members = {a, b}, lastMaintainedTick = tick, formedTick = tick\<rparr>"
        using act by (simp add: L')
      then show ?thesis using True ab by (auto simp: L')
    next
      case False
      then have old: "alliances L k = Some al" using act by (simp add: L')
      have "x \<noteq> a \<and> x \<noteq> b" if "x \<in> members al" for x
        using inv_active(4)[OF inv old that] ab by auto
      then show ?thesis
        using inv_active[OF inv old] by (auto simp: L')
    qed
  next
    fix x k assume ref: "allianceIdOf L' x = Some k"
    show "\<exists>al. alliances L' k = Some al \<and> x \<in> members al"
    proof (cases "x = a \<or> x = b")
      case True
      then show ?thesis using ref by (auto simp: L' split: if_splits)
    next
      case False
      then have old: "allianceIdOf L x = Some k" using ref by (simp add: L')
      then obtain al where al: "alliances L k = Some al" "x \<in> members al"
        by (rule inv_ref[OF inv])
      then have "k \<noteq> ?k" using fresh by auto
      then show ?thesis using al by (simp add: L')
    qed
  qed
qed

lemma inv_maintain:
  assumes inv: "ledgerInv L"
  shows "ledgerInv (maintainAlliance tick a L)"
proof (cases "\<exists>k al. allianceIdOf L a = Some k \<and> alliances L k = Some al")
  case False
  then have "maintainAlliance tick a L = L"
    by (auto simp: maintainAlliance_def split: option.splits)
  then show ?thesis using inv by simp
next
  case True
  then obtain k0 al0 where k0: "allianceIdOf L a = Some k0" "alliances L k0 = Some al0" by blast
  then have L': "maintainAlliance tick a L
      = L\<lparr>alliances := (alliances L)(k0 \<mapsto> al0\<lparr>lastMaintainedTick := tick\<rparr>)\<rparr>"
    by (simp add: maintainAlliance_def)
  show ?thesis unfolding L'
  proof (rule invI)
    fix k al assume act: "alliances (L\<lparr>alliances := (alliances L)(k0 \<mapsto> al0\<lparr>lastMaintainedTick := tick\<rparr>)\<rparr>) k = Some al"
    then obtain al' where "alliances L k = Some al'" "members al = members al'"
      using k0 by (cases "k = k0") auto
    then show "finite (members al) \<and> 2 \<le> card (members al)
        \<and> k < nextAllianceId (L\<lparr>alliances := (alliances L)(k0 \<mapsto> al0\<lparr>lastMaintainedTick := tick\<rparr>)\<rparr>)
        \<and> (\<forall>x \<in> members al. allianceIdOf (L\<lparr>alliances := (alliances L)(k0 \<mapsto> al0\<lparr>lastMaintainedTick := tick\<rparr>)\<rparr>) x = Some k)"
      using inv_active[OF inv, of k al'] by simp
  next
    fix x k assume "allianceIdOf (L\<lparr>alliances := (alliances L)(k0 \<mapsto> al0\<lparr>lastMaintainedTick := tick\<rparr>)\<rparr>) x = Some k"
    then have "allianceIdOf L x = Some k" by simp
    then obtain al where "alliances L k = Some al" "x \<in> members al"
      by (rule inv_ref[OF inv])
    then show "\<exists>al. alliances (L\<lparr>alliances := (alliances L)(k0 \<mapsto> al0\<lparr>lastMaintainedTick := tick\<rparr>)\<rparr>) k = Some al \<and> x \<in> members al"
      using k0 by (cases "k = k0") auto
  qed
qed

lemma inv_remove:
  assumes inv: "ledgerInv L"
  shows "ledgerInv (removeMember a L)"
proof (cases "allianceIdOf L a")
  case None
  then show ?thesis using inv by (simp add: removeMember_def)
next
  case (Some k0)
  then obtain al0 where al0: "alliances L k0 = Some al0" "a \<in> members al0"
    by (rule inv_ref[OF inv])
  note act0 = inv_active[OF inv al0(1)]
  have other: "x \<notin> members al0" if "alliances L k = Some al" "x \<in> members al" "k \<noteq> k0" for x k al
    using inv_active(4)[OF inv that(1,2)] act0(4)[of x] that(3) by auto
  show ?thesis
  proof (cases "card (members al0 - {a}) < 2")
    case True
    define L' where "L' = L\<lparr>alliances := (alliances L)(k0 := None),
        allianceIdOf := (\<lambda>x. if x = a \<or> x \<in> members al0 - {a} then None else allianceIdOf L x)\<rparr>"
    have eq: "removeMember a L = L'"
      using Some al0 True by (simp add: removeMember_def L'_def)
    have "ledgerInv L'"
    proof (rule invI)
      fix k al assume "alliances L' k = Some al"
      then have old: "alliances L k = Some al" "k \<noteq> k0"
        by (auto simp: L'_def split: if_splits)
      have "allianceIdOf L' x = Some k" if "x \<in> members al" for x
        using other[OF old(1) that old(2)] inv_active(4)[OF inv old(1) that] al0(2)
        by (auto simp: L'_def)
      then show "finite (members al) \<and> 2 \<le> card (members al) \<and> k < nextAllianceId L'
              \<and> (\<forall>x \<in> members al. allianceIdOf L' x = Some k)"
        using inv_active(1-3)[OF inv old(1)] by (simp add: L'_def)
    next
      fix x k assume ref: "allianceIdOf L' x = Some k"
      then have x: "x \<notin> members al0" "allianceIdOf L x = Some k"
        by (auto simp: L'_def split: if_splits)
      then obtain al where al: "alliances L k = Some al" "x \<in> members al"
        using inv_ref[OF inv] by blast
      then have "k \<noteq> k0" using x(1) al0(1) by auto
      then show "\<exists>al. alliances L' k = Some al \<and> x \<in> members al"
        using al by (simp add: L'_def)
    qed
    then show ?thesis by (simp add: eq)
  next
    case False
    define L' where "L' = L\<lparr>alliances := (alliances L)(k0 \<mapsto> al0\<lparr>members := members al0 - {a}\<rparr>),
        allianceIdOf := (allianceIdOf L)(a := None)\<rparr>"
    have eq: "removeMember a L = L'"
      using Some al0 False by (simp add: removeMember_def L'_def)
    have "ledgerInv L'"
    proof (rule invI)
      fix k al assume act: "alliances L' k = Some al"
      show "finite (members al) \<and> 2 \<le> card (members al) \<and> k < nextAllianceId L'
              \<and> (\<forall>x \<in> members al. allianceIdOf L' x = Some k)"
      proof (cases "k = k0")
        case True
        then have "members al = members al0 - {a}" using act by (auto simp: L'_def)
        then show ?thesis using True False act0 by (auto simp: L'_def)
      next
        case False
        then have old: "alliances L k = Some al" using act by (simp add: L'_def)
        have "x \<noteq> a" if "x \<in> members al" for x
          using other[OF old that False] al0(2) by auto
        then show ?thesis using inv_active[OF inv old] by (auto simp: L'_def)
      qed
    next
      fix x k assume ref: "allianceIdOf L' x = Some k"
      then have x: "x \<noteq> a" "allianceIdOf L x = Some k"
        by (auto simp: L'_def split: if_splits)
      then obtain al where al: "alliances L k = Some al" "x \<in> members al"
        using inv_ref[OF inv] by blast
      then show "\<exists>al. alliances L' k = Some al \<and> x \<in> members al"
        using x(1) al0(1) by (cases "k = k0") (auto simp: L'_def)
    qed
    then show ?thesis by (simp add: eq)
  qed
qed


lemma inv_applyOp: "ledgerInv L \<Longrightarrow> applyOp op L = Inr L' \<Longrightarrow> ledgerInv L'"
  by (cases op) (auto simp: inv_form inv_maintain inv_remove)

lemma inv_applyOps: "ledgerInv L \<Longrightarrow> applyOps ops L = Inr L' \<Longrightarrow> ledgerInv L'"
proof (induction ops arbitrary: L)
  case Nil
  then show ?case by simp
next
  case (Cons op ops)
  then obtain L1 where "applyOp op L = Inr L1" "applyOps ops L1 = Inr L'"
    by (auto split: sum.splits)
  with Cons.IH[of L1] Cons.prems(1) show ?case
    using inv_applyOp by blast
qed


lemma dissolved_gone: "allianceState L k = Dissolved \<longleftrightarrow> gone L k"
  by (auto simp: allianceState_def gone_def)

lemma gone_form: "gone L k \<Longrightarrow> formAlliance tick a b L = Inr L' \<Longrightarrow> gone L' k"
  by (auto simp: gone_def formAlliance_def Let_def split: if_splits)

lemma gone_maintain: "gone L k \<Longrightarrow> gone (maintainAlliance tick a L) k"
  by (auto simp: gone_def maintainAlliance_def split: option.splits)

lemma gone_remove: "gone L k \<Longrightarrow> gone (removeMember a L) k"
  by (auto simp: gone_def removeMember_def Let_def split: option.splits)

lemma gone_applyOp: "gone L k \<Longrightarrow> applyOp op L = Inr L' \<Longrightarrow> gone L' k"
  by (cases op) (auto simp: gone_form gone_maintain gone_remove)

lemma gone_applyOps: "gone L k \<Longrightarrow> applyOps ops L = Inr L' \<Longrightarrow> gone L' k"
proof (induction ops arbitrary: L)
  case Nil
  then show ?case by simp
next
  case (Cons op ops)
  then obtain L1 where "applyOp op L = Inr L1" "applyOps ops L1 = Inr L'"
    by (auto split: sum.splits)
  with Cons.IH[of L1] Cons.prems(1) show ?case
    using gone_applyOp by blast
qed

lemma remove_dissolves:
  assumes "allianceIdOf L a = Some k" "alliances L k = Some al" "card (members al - {a}) < 2"
  shows "alliances (removeMember a L) k = None"
    and "nextAllianceId (removeMember a L) = nextAllianceId L"
    and "\<forall>x \<in> members al. allianceIdOf (removeMember a L) x = None"
  using assms by (auto simp: removeMember_def)

text \<open>C4. In every ledger reached from the empty one: each active alliance has at least two
  members; no agent is a member of two active alliances; each agent's alliance id is unset
  or refers to an active alliance that contains the agent; removing a member from an
  alliance that is left with fewer than two dissolves it at once and clears the alliance
  id of every member; and a dissolved alliance stays dissolved whatever happens next.\<close>

theorem alliance_invariants:
  "applyOps ops emptyLedger = Inr L \<Longrightarrow>
     (\<forall>k al. alliances L k = Some al \<longrightarrow> 2 \<le> card (members al))
   \<and> (\<forall>a k1 al1 k2 al2. alliances L k1 = Some al1 \<and> a \<in> members al1
          \<and> alliances L k2 = Some al2 \<and> a \<in> members al2 \<longrightarrow> k1 = k2)
   \<and> (\<forall>a k. allianceIdOf L a = Some k \<longrightarrow> (\<exists>al. alliances L k = Some al \<and> a \<in> members al))
   \<and> (\<forall>a k al. allianceIdOf L a = Some k \<and> alliances L k = Some al
          \<and> card (members al - {a}) < 2 \<longrightarrow>
          allianceState (removeMember a L) k = Dissolved
          \<and> (\<forall>x \<in> members al. allianceIdOf (removeMember a L) x = None))
   \<and> (\<forall>k ops' L'. allianceState L k = Dissolved \<and> applyOps ops' L = Inr L' \<longrightarrow>
          allianceState L' k = Dissolved)"
proof -
  assume run: "applyOps ops emptyLedger = Inr L"
  have inv: "ledgerInv L" using inv_applyOps[OF inv_empty run] .
  have one: "k1 = k2" if "alliances L k1 = Some al1" "a \<in> members al1"
    "alliances L k2 = Some al2" "a \<in> members al2" for a k1 al1 k2 al2
    using inv_active(4)[OF inv that(1,2)] inv_active(4)[OF inv that(3,4)] by simp
  have ref: "\<exists>al. alliances L k = Some al \<and> a \<in> members al" if "allianceIdOf L a = Some k" for a k
    using inv_ref[OF inv that] by blast
  have dis: "allianceState (removeMember a L) k = Dissolved
          \<and> (\<forall>x \<in> members al. allianceIdOf (removeMember a L) x = None)"
    if "allianceIdOf L a = Some k" "alliances L k = Some al" "card (members al - {a}) < 2" for a k al
    using remove_dissolves[OF that] inv_active(3)[OF inv that(2)]
    by (simp add: allianceState_def)
  have terminal: "allianceState L' k = Dissolved"
    if "allianceState L k = Dissolved" "applyOps ops' L = Inr L'" for k ops' L'
    using gone_applyOps[of L k ops' L'] that by (simp add: dissolved_gone)
  show ?thesis
    using inv_active(2)[OF inv] one ref dis terminal by blast
qed

lemma sample_run: "\<exists>L. applyOps sampleOps emptyLedger = Inr L"
  by (simp add: sampleOps_def emptyLedger_def formAlliance_def maintainAlliance_def
      removeMember_def Let_def)

lemma sample_facts:
  "allianceIdOf (projr (applyOps sampleOps emptyLedger)) 2 = Some 1"
  "allianceState (projr (applyOps sampleOps emptyLedger)) 0 = Dissolved"
  "allianceIdOf (projr (applyOps sampleOps emptyLedger)) 1 = None"
  by (simp_all add: sampleOps_def emptyLedger_def formAlliance_def maintainAlliance_def
      removeMember_def Let_def allianceState_def)

text \<open>C4, after two alliances were formed and a member left the first.\<close>

theorem alliance_invariants_witness:
  "(\<exists>al. alliances (projr (applyOps sampleOps emptyLedger)) 1 = Some al \<and> 2 \<in> members al
        \<and> 2 \<le> card (members al))
   \<and> allianceState (projr (applyOps sampleOps emptyLedger)) 0 = Dissolved
   \<and> allianceIdOf (projr (applyOps sampleOps emptyLedger)) 1 = None"
proof -
  from sample_run have "applyOps sampleOps emptyLedger = Inr (projr (applyOps sampleOps emptyLedger))"
    by auto
  from alliance_invariants[OF this] sample_facts show ?thesis
    by blast
qed

end
